theory Spec2Isabelle
  imports Main
begin

section \<open>The zip operator of rx/operators/observable/zip.py\<close>

text \<open>
  The operator is a reactive node: it is driven by the notifications its sources push
  (\<open>send\<close>, \<open>throw\<close>, \<open>close\<close>) and answers by calling \<open>send\<close>, \<open>throw\<close> and
  \<open>close\<close> on the observer handed to \<open>subscribe\<close>. The embedding threads the mutable
  state of one subscription (\<open>queues\<close>, \<open>is_done\<close>, or the cursor \<open>index\<close>) through the
  handlers explicitly, and records the calls made on the observer, in order, as a list.
  An exception raised by the result mapper is a value \<open>Inl ex\<close>.
\<close>

subsection \<open>Notifications\<close>

text \<open>A notification pushed by the source at position \<open>i\<close> of \<open>sources\<close>.\<close>

datatype ('a, 'e) event = Send nat 'a | Throw nat 'e | Close nat

text \<open>A call made on the observer: \<open>observer.send\<close>, \<open>observer.throw\<close>, \<open>observer.close\<close>.\<close>

datatype ('b, 'e) notification = OnSend 'b | OnThrow 'e | OnClose

subsection \<open>The N-ary path: \<open>subscribe\<close> of \<open>zip\<close>\<close>

record 'a zip_state =
  queues :: "'a list list"
  is_done :: "bool list"

text \<open>
  \<open>next(i)\<close>. The guard \<open>all([len(q) for q in queues])\<close> makes every \<open>x.pop(0)\<close> of the
  comprehension succeed, so the pops are \<open>hd\<close> and \<open>tl\<close> of non-empty lists; they are
  all done before \<open>result_mapper\<close> is called, and nothing puts the values back when it
  raises.
\<close>

definition zip_next ::
  "('a list \<Rightarrow> 'e + 'b) \<Rightarrow> nat \<Rightarrow> 'a zip_state \<Rightarrow> 'a zip_state \<times> ('b, 'e) notification list"
where
  "zip_next result_mapper i st =
     (if list_all (\<lambda>q. length q \<noteq> 0) (queues st) then
        (let queued_values = map hd (queues st);
             st' = st\<lparr>queues := map tl (queues st)\<rparr>
         in case result_mapper queued_values of
              Inl ex \<Rightarrow> (st', [OnThrow ex])
            | Inr res \<Rightarrow> (st', [OnSend res]))
      else if list_all (\<lambda>(j, x). x) (filter (\<lambda>(j, x). j \<noteq> i) (enumerate 0 (is_done st)))
        then (st, [OnClose])
      else (st, []))"

text \<open>\<open>done(i)\<close>.\<close>

definition zip_done :: "nat \<Rightarrow> 'a zip_state \<Rightarrow> 'a zip_state \<times> ('b, 'e) notification list" where
  "zip_done i st =
     (let st' = st\<lparr>is_done := (is_done st)[i := True]\<rparr>
      in if list_all (\<lambda>x. x) (is_done st') then (st', [OnClose]) else (st', []))"

text \<open>The \<open>send(x)\<close> of \<open>func(i)\<close>: \<open>queues[i].append(x)\<close>, then \<open>next(i)\<close>.\<close>

definition zip_send ::
  "('a list \<Rightarrow> 'e + 'b) \<Rightarrow> nat \<Rightarrow> 'a \<Rightarrow> 'a zip_state \<Rightarrow> 'a zip_state \<times> ('b, 'e) notification list"
where
  "zip_send result_mapper i x st =
     zip_next result_mapper i (st\<lparr>queues := (queues st)[i := queues st ! i @ [x]]\<rparr>)"

text \<open>
  The state \<open>subscribe\<close> creates: \<open>queues = [[] for _ in range(n)]\<close> and
  \<open>is_done = [False] * n\<close>.
\<close>

definition zip_init :: "nat \<Rightarrow> 'a zip_state" where
  "zip_init n = \<lparr>queues = replicate n [], is_done = replicate n False\<rparr>"

text \<open>
  \<open>func(i)\<close> subscribes \<open>send\<close>, \<open>observer.throw\<close> and \<open>lambda: done(i)\<close> to source
  \<open>i\<close>, and \<open>subscribe\<close> runs it \<open>for idx in range(n)\<close>: a notification of a source
  reaches the handlers of its own index, and there are handlers for the indices below
  \<open>n\<close> only. A failure of a source goes to \<open>observer.throw\<close> as it is and leaves the
  state alone.
\<close>

fun zip_notify ::
  "('a list \<Rightarrow> 'e + 'b) \<Rightarrow> nat \<Rightarrow> 'a zip_state \<Rightarrow> ('a, 'e) event
     \<Rightarrow> 'a zip_state \<times> ('b, 'e) notification list"
where
  "zip_notify result_mapper n st (Send i x) =
     (if i < n then zip_send result_mapper i x st else (st, []))"
| "zip_notify result_mapper n st (Throw i ex) =
     (if i < n then (st, [OnThrow ex]) else (st, []))"
| "zip_notify result_mapper n st (Close i) =
     (if i < n then zip_done i st else (st, []))"

text \<open>The notifications of a subscription, handled one after the other.\<close>

fun zip_run ::
  "('a list \<Rightarrow> 'e + 'b) \<Rightarrow> nat \<Rightarrow> 'a zip_state \<Rightarrow> ('a, 'e) event list
     \<Rightarrow> 'a zip_state \<times> ('b, 'e) notification list"
where
  "zip_run result_mapper n st [] = (st, [])"
| "zip_run result_mapper n st (ev # evs) =
     (case zip_notify result_mapper n st ev of
        (st', out) \<Rightarrow>
          (case zip_run result_mapper n st' evs of
             (st'', outs) \<Rightarrow> (st'', out @ outs)))"

text \<open>The calls a subscription to \<open>n\<close> sources makes on its observer.\<close>

definition zip_subscribe ::
  "('a list \<Rightarrow> 'e + 'b) \<Rightarrow> nat \<Rightarrow> ('a, 'e) event list \<Rightarrow> ('b, 'e) notification list"
where
  "zip_subscribe result_mapper n evs = snd (zip_run result_mapper n (zip_init n) evs)"

subsection \<open>The list path: \<open>subscribe\<close> of \<open>_zip_with_list\<close>\<close>

text \<open>
  The only state is the cursor \<open>index\<close>. \<open>send(left)\<close> reads \<open>second[index]\<close> under
  the guard \<open>index < length\<close>, so the read is in range.
\<close>

definition zip_with_list_send ::
  "('a \<Rightarrow> 'c \<Rightarrow> 'e + 'b) \<Rightarrow> 'c list \<Rightarrow> 'a \<Rightarrow> nat \<Rightarrow> nat \<times> ('b, 'e) notification list"
where
  "zip_with_list_send result_mapper second left index =
     (if index < length second then
        (let right = second ! index;
             index' = index + 1
         in case result_mapper left right of
              Inl ex \<Rightarrow> (index', [OnThrow ex])
            | Inr result \<Rightarrow> (index', [OnSend result]))
      else (index, [OnClose]))"

text \<open>
  \<open>first.subscribe_(send, observer.throw, observer.close, scheduler)\<close>: there is one
  source, whose failure and completion go to the observer as they are.
\<close>

fun zip_with_list_notify ::
  "('a \<Rightarrow> 'c \<Rightarrow> 'e + 'b) \<Rightarrow> 'c list \<Rightarrow> nat \<Rightarrow> ('a, 'e) event \<Rightarrow> nat \<times> ('b, 'e) notification list"
where
  "zip_with_list_notify result_mapper second index (Send i left) =
     (if i = 0 then zip_with_list_send result_mapper second left index else (index, []))"
| "zip_with_list_notify result_mapper second index (Throw i ex) =
     (if i = 0 then (index, [OnThrow ex]) else (index, []))"
| "zip_with_list_notify result_mapper second index (Close i) =
     (if i = 0 then (index, [OnClose]) else (index, []))"

fun zip_with_list_run ::
  "('a \<Rightarrow> 'c \<Rightarrow> 'e + 'b) \<Rightarrow> 'c list \<Rightarrow> nat \<Rightarrow> ('a, 'e) event list
     \<Rightarrow> nat \<times> ('b, 'e) notification list"
where
  "zip_with_list_run result_mapper second index [] = (index, [])"
| "zip_with_list_run result_mapper second index (ev # evs) =
     (case zip_with_list_notify result_mapper second index ev of
        (index', out) \<Rightarrow>
          (case zip_with_list_run result_mapper second index' evs of
             (index'', outs) \<Rightarrow> (index'', out @ outs)))"

definition zip_with_list ::
  "('a \<Rightarrow> 'c \<Rightarrow> 'e + 'b) \<Rightarrow> 'c list \<Rightarrow> ('a, 'e) event list \<Rightarrow> ('b, 'e) notification list"
where
  "zip_with_list result_mapper second evs = snd (zip_with_list_run result_mapper second 0 evs)"


subsection \<open>The entry point \<open>zip\<close>\<close>

text \<open>
  The values that flow through the operator are Python objects; integers and lists are
  enough to run the default mapper. \<open>TypeError\<close> is the exception Python raises for a
  call with the wrong number or kind of arguments and for a call of \<open>None\<close>.
\<close>

datatype pyval = PyInt int | PyList "pyval list"

datatype pyexn = TypeError | Exception string

text \<open>
  The builtin \<open>list\<close> called with the positional arguments \<open>xs\<close>, as in
  \<open>result_mapper(*queued_values)\<close> when \<open>result_mapper\<close> is \<open>list\<close>: no argument gives
  the empty list, one iterable argument gives the list of its elements, one argument
  that is not iterable and two or more arguments raise \<open>TypeError\<close>.
\<close>

fun py_list :: "pyval list \<Rightarrow> pyexn + pyval" where
  "py_list [] = Inr (PyList [])"
| "py_list [PyList xs] = Inr (PyList xs)"
| "py_list [PyInt k] = Inl TypeError"
| "py_list (x # y # zs) = Inl TypeError"

text \<open>
  An operand of \<open>zip\<close>: an observable, which is not an \<open>Iterable\<close>, or a sequence with a
  length. The notifications of the observables are the input of the subscription.
\<close>

datatype operand = Source | Sequence "pyval list"

text \<open>
  \<open>zip(*args, result_mapper)\<close> and a subscription to the observable it returns. With
  two operands of which the second is a sequence, \<open>_zip_with_list\<close> gets \<open>result_mapper\<close>
  as it is, so that a missing mapper is the call \<open>None(left, right)\<close>, which raises
  \<open>TypeError\<close> inside the \<open>try\<close>. Otherwise \<open>result_mapper or list\<close> is used and every
  operand is subscribed as a source.
\<close>

definition zip_rx ::
  "operand list \<Rightarrow> (pyval list \<Rightarrow> pyexn + pyval) option \<Rightarrow> (pyval, pyexn) event list
     \<Rightarrow> (pyval, pyexn) notification list"
where
  "zip_rx args result_mapper evs =
     (case args of
        [first, Sequence second] \<Rightarrow>
          zip_with_list
            (\<lambda>left right. case result_mapper of
                              None \<Rightarrow> Inl TypeError
                            | Some m \<Rightarrow> m [left, right])
            second evs
      | _ \<Rightarrow>
          zip_subscribe (case result_mapper of None \<Rightarrow> py_list | Some m \<Rightarrow> m)
            (length args) evs)"

section \<open>Notions used in the properties\<close>

text \<open>The source a notification comes from.\<close>

fun source_of :: "('a, 'e) event \<Rightarrow> nat" where
  "source_of (Send i x) = i"
| "source_of (Throw i ex) = i"
| "source_of (Close i) = i"

text \<open>The values source \<open>i\<close> delivers in a sequence of notifications, in order.\<close>

fun sent :: "nat \<Rightarrow> ('a, 'e) event list \<Rightarrow> 'a list" where
  "sent i [] = []"
| "sent i (Send j x # evs) = (if j = i then x # sent i evs else sent i evs)"
| "sent i (Throw j ex # evs) = sent i evs"
| "sent i (Close j # evs) = sent i evs"

text \<open>
  Source \<open>i\<close> delivers exactly the values \<open>s\<close>, in order, and then completes, without a
  failure: these are all its notifications in \<open>evs\<close>, however they are interleaved with
  those of the other sources.
\<close>

definition emits_then_completes :: "nat \<Rightarrow> 'a list \<Rightarrow> ('a, 'e) event list \<Rightarrow> bool" where
  "emits_then_completes i s evs \<longleftrightarrow>
     filter (\<lambda>ev. source_of ev = i) evs = map (Send i) s @ [Close i]"

text \<open>No source delivers a value after its own completion.\<close>

fun quiet_after_close :: "('a, 'e) event list \<Rightarrow> bool" where
  "quiet_after_close [] = True"
| "quiet_after_close (Close i # evs) = (sent i evs = [] \<and> quiet_after_close evs)"
| "quiet_after_close (Send i x # evs) = quiet_after_close evs"
| "quiet_after_close (Throw i ex # evs) = quiet_after_close evs"

text \<open>
  The call on the observer that answers a combination: the result is sent, an exception
  is thrown.
\<close>

fun outcome :: "'e + 'b \<Rightarrow> ('b, 'e) notification" where
  "outcome (Inl ex) = OnThrow ex"
| "outcome (Inr res) = OnSend res"

text \<open>The calls on the observer other than \<open>close\<close>, in order.\<close>

definition combined :: "('b, 'e) notification list \<Rightarrow> ('b, 'e) notification list" where
  "combined ns = filter (\<lambda>x. x \<noteq> OnClose) ns"

text \<open>
  Every call that follows a \<open>close\<close> satisfies \<open>P\<close>; \<open>closed\<close> tells whether a
  \<open>close\<close> has already been seen.
\<close>

fun after_close ::
  "(('b, 'e) notification \<Rightarrow> bool) \<Rightarrow> bool \<Rightarrow> ('b, 'e) notification list \<Rightarrow> bool"
where
  "after_close P closed [] = True"
| "after_close P closed (x # ns) = ((closed \<longrightarrow> P x) \<and> after_close P (closed \<or> x = OnClose) ns)"

text \<open>
  The state and the calls made after the notifications \<open>evs\<close>, from the initial state,
  when no source has failed: as many tuples have been combined as there are calls other
  than \<open>close\<close>, every queue holds what its source delivered beyond them, some source
  has delivered no more than that, and these calls answer the aligned tuples in order.
\<close>

definition zip_inv ::
  "('a list \<Rightarrow> 'e + 'b) \<Rightarrow> nat \<Rightarrow> ('a, 'e) event list \<Rightarrow> 'a zip_state
     \<Rightarrow> ('b, 'e) notification list \<Rightarrow> bool"
where
  "zip_inv rm n evs st tr \<longleftrightarrow>
     length (queues st) = n \<and> length (is_done st) = n \<and>
     (\<forall>i<n. is_done st ! i = (Close i \<in> set evs)) \<and>
     (\<forall>i<n. length (combined tr) \<le> length (sent i evs)) \<and>
     (\<forall>i<n. queues st ! i = drop (length (combined tr)) (sent i evs)) \<and>
     (0 < n \<longrightarrow> (\<exists>i<n. length (sent i evs) = length (combined tr))) \<and>
     combined tr =
       map (\<lambda>k. outcome (rm (map (\<lambda>i. sent i evs ! k) [0..<n]))) [0..<length (combined tr)]"

text \<open>A state of the right shape in which some queue is empty.\<close>

definition zip_wf :: "nat \<Rightarrow> 'a zip_state \<Rightarrow> bool" where
  "zip_wf n st \<longleftrightarrow> length (queues st) = n \<and> length (is_done st) = n \<and> (\<exists>k<n. queues st ! k = [])"

text \<open>
  A state from which no tuple can be completed any more: some source is done and its
  queue is empty.
\<close>

definition zip_stuck :: "nat \<Rightarrow> 'a zip_state \<Rightarrow> bool" where
  "zip_stuck n st \<longleftrightarrow> (\<exists>j<n. is_done st ! j \<and> queues st ! j = [])"

section \<open>The subscription handles\<close>

text \<open>
  Modelled from the spec: the subscription handles and their composite, and with them
  what the subscriber of the combined sequence receives. \<open>zip.py\<close> only creates them
  (\<open>SingleAssignmentDisposable\<close>, \<open>CompositeDisposable\<close>) and returns the composite through
  \<open>AnonymousObservable\<close>; these classes of \<open>rx.core\<close> and \<open>rx.disposables\<close> are not among
  the sources. The spec has one handle per source, which owns the connection to that
  source, and "disposing it cancels further notifications from that source"; "a
  composite owns all N handles and disposing it disposes all, used both for
  caller-initiated cancellation and for cleanup on normal/erroneous completion", after
  which "further notifications from any source" are "a no-op".

  The state of a combined subscription is the state of the handlers of \<open>zip.py\<close>
  together with the list \<open>subscriptions\<close>, one handle per source, \<open>True\<close> while it is
  live.
\<close>

record 'a combined_state =
  zip_st :: "'a zip_state"
  subscriptions :: "bool list"

text \<open>The notifications that end a sequence: a failure and a completion.\<close>

fun is_terminal :: "('b, 'e) notification \<Rightarrow> bool" where
  "is_terminal (OnSend v) = False"
| "is_terminal (OnThrow ex) = True"
| "is_terminal OnClose = True"

text \<open>Modelled from the spec: disposing the composite disposes every handle.\<close>

definition dispose :: "bool list \<Rightarrow> bool list" where
  "dispose subs = map (\<lambda>_. False) subs"

text \<open>
  Modelled from the spec: a notification of a source whose handle is live is handed to
  the handlers of \<open>zip.py\<close>, and what they call on the observer goes downstream; when
  this completes or fails the combined sequence, the composite is disposed. A
  notification of a source whose handle is disposed is a no-op.
\<close>

definition combined_notify ::
  "('a list \<Rightarrow> 'e + 'b) \<Rightarrow> nat \<Rightarrow> 'a combined_state \<Rightarrow> ('a, 'e) event
     \<Rightarrow> 'a combined_state \<times> ('b, 'e) notification list"
where
  "combined_notify result_mapper n cs ev =
     (if source_of ev < length (subscriptions cs) \<and> subscriptions cs ! source_of ev then
        (case zip_notify result_mapper n (zip_st cs) ev of
           (st', out) \<Rightarrow>
             (\<lparr>zip_st = st',
               subscriptions = (if list_ex is_terminal out then dispose (subscriptions cs)
                                else subscriptions cs)\<rparr>,
              out))
      else (cs, []))"

text \<open>Modelled from the spec: the notifications of a combined subscription, one after the other.\<close>

fun combined_run ::
  "('a list \<Rightarrow> 'e + 'b) \<Rightarrow> nat \<Rightarrow> 'a combined_state \<Rightarrow> ('a, 'e) event list
     \<Rightarrow> 'a combined_state \<times> ('b, 'e) notification list"
where
  "combined_run result_mapper n cs [] = (cs, [])"
| "combined_run result_mapper n cs (ev # evs) =
     (case combined_notify result_mapper n cs ev of
        (cs', out) \<Rightarrow>
          (case combined_run result_mapper n cs' evs of
             (cs'', outs) \<Rightarrow> (cs'', out @ outs)))"

text \<open>
  Modelled from the spec: a new subscription, with the state \<open>subscribe\<close> creates and
  every handle live.
\<close>

definition combined_init :: "nat \<Rightarrow> 'a combined_state" where
  "combined_init n = \<lparr>zip_st = zip_init n, subscriptions = replicate n True\<rparr>"

text \<open>Modelled from the spec: what the subscriber of the combined sequence receives.\<close>

definition combined_subscribe ::
  "('a list \<Rightarrow> 'e + 'b) \<Rightarrow> nat \<Rightarrow> ('a, 'e) event list \<Rightarrow> ('b, 'e) notification list"
where
  "combined_subscribe result_mapper n evs =
     snd (combined_run result_mapper n (combined_init n) evs)"

section \<open>Properties\<close>

subsection \<open>Auxiliary facts\<close>

lemma others_done_iff:
  "list_all (\<lambda>(j, x). x) (filter (\<lambda>(j, x). j \<noteq> i) (enumerate 0 ds))
     \<longleftrightarrow> (\<forall>j<length ds. j \<noteq> i \<longrightarrow> ds ! j)"
  by (auto simp: list_all_iff in_set_enumerate_eq)

lemma all_nonempty_iff:
  "list_all (\<lambda>q. q \<noteq> []) qs \<longleftrightarrow> (\<forall>k<length qs. qs ! k \<noteq> [])"
  by (auto simp: list_all_length)

lemma all_done_iff: "list_all (\<lambda>x. x) ds \<longleftrightarrow> (\<forall>j<length ds. ds ! j)"
  by (simp add: list_all_length)

lemma zip_run_append:
  "zip_run rm n st (es @ fs) =
     (case zip_run rm n st es of
        (st', out) \<Rightarrow> (case zip_run rm n st' fs of (st'', outs) \<Rightarrow> (st'', out @ outs)))"
  by (induction es arbitrary: st) (auto split: prod.splits)

lemma zip_run_zero: "zip_run result_mapper 0 st evs = (st, [])"
proof (induction evs)
  case Nil
  show ?case by simp
next
  case (Cons ev evs)
  then show ?case by (cases ev) simp_all
qed

subsection \<open>The list path\<close>

lemma zip_with_list_send_outcome:
  "zip_with_list_send rm second left index =
     (if index < length second then (Suc index, [outcome (rm left (second ! index))])
      else (index, [OnClose]))"
  by (cases "rm left (second ! index)") (simp_all add: zip_with_list_send_def)

lemma zip_with_list_answers:
  "zip_with_list_run rm second index (map (Send 0) vs) =
     (min (index + length vs) (max index (length second)),
      map (\<lambda>(l, r). outcome (rm l r)) (zip vs (drop index second))
        @ replicate (length vs - (length second - index)) OnClose)"
proof (induction vs arbitrary: index)
  case Nil
  show ?case by simp
next
  case (Cons v vs)
  show ?case
  proof (cases "index < length second")
    case True
    then have "drop index second = second ! index # drop (Suc index) second"
      by (simp add: Cons_nth_drop_Suc)
    with True Cons[of "Suc index"] show ?thesis
      by (auto simp: zip_with_list_send_outcome Suc_diff_le min_def max_def)
  next
    case False
    with Cons[of index] show ?thesis
      by (auto simp: zip_with_list_send_outcome min_def max_def replicate_append_same)
  qed
qed

lemma map2_nth:
  "map (\<lambda>(l, r). g l r) (zip xs ys)
     = map (\<lambda>i. g (xs ! i) (ys ! i)) [0..<min (length xs) (length ys)]"
  by (intro nth_equalityI) auto

text \<open>
  C2. The source sends the values \<open>vs\<close>, the sequence operand is \<open>second\<close>, and the
  combiner returns on the pairs at equal positions, its value being \<open>f\<close> of the pair.
  Then the subscription sends \<open>min (length vs) (length second)\<close> values, the one at
  position \<open>i\<close> being \<open>f (vs ! i) (second ! i)\<close>. Every notification of the source is
  answered by exactly one call on the observer when it arrives (a value while the cursor
  is in range, \<open>close\<close> afterwards); the only state kept between two notifications is
  the cursor, which starts at 0 and ends at \<open>min (length vs) (length second)\<close>: no
  value of the source is stored.
\<close>

theorem zip_with_list_emits_min_pairs:
  assumes "\<forall>i<min (length vs) (length second).
             result_mapper (vs ! i) (second ! i) = Inr (f (vs ! i) (second ! i))"
  shows "zip_with_list result_mapper second (map (Send 0) vs) =
           map OnSend (map (\<lambda>i. f (vs ! i) (second ! i)) [0..<min (length vs) (length second)])
             @ replicate (length vs - length second) OnClose \<and>
         zip_with_list_run result_mapper second 0 (map (Send 0) vs) =
           (min (length vs) (length second),
            zip_with_list result_mapper second (map (Send 0) vs))"
proof -
  have "map (\<lambda>(l, r). outcome (result_mapper l r)) (zip vs second)
          = map (\<lambda>i. outcome (result_mapper (vs ! i) (second ! i)))
              [0..<min (length vs) (length second)]"
    by (rule map2_nth)
  also from assms have "\<dots> = map (\<lambda>i. OnSend (f (vs ! i) (second ! i)))
              [0..<min (length vs) (length second)]"
    by simp
  finally show ?thesis by (simp add: zip_with_list_def zip_with_list_answers comp_def)
qed

theorem zip_with_list_emits_min_pairs_witness:
  "zip_with_list (\<lambda>l r. Inr (l + r)) [10, 20 :: int] (map (Send 0) [1, 2, 3, 4]) =
     [OnSend 11, OnSend 22, OnClose, OnClose :: (int, unit) notification] \<and>
   zip_with_list_run (\<lambda>l r. Inr (l + r) :: unit + int) [10, 20] 0 (map (Send 0) [1, 2, 3, 4]) =
     (2, zip_with_list (\<lambda>l r. Inr (l + r)) [10, 20] (map (Send 0) [1, 2, 3, 4]))"
  using zip_with_list_emits_min_pairs
    [of "[1, 2, 3, 4]" "[10, 20 :: int]" "\<lambda>l r. Inr (l + r) :: unit + int" "\<lambda>l r. l + r"]
  by (simp add: upt_rec numeral_eq_Suc)

lemma zip_with_list_no_close:
  "index + length vs \<le> length second \<Longrightarrow>
     OnClose \<notin> set (snd (zip_with_list_run result_mapper second index (map (Send 0) vs)))"
proof (induction vs arbitrary: index)
  case Nil
  show ?case by simp
next
  case (Cons v vs)
  from Cons.prems have "index < length second" and "Suc index + length vs \<le> length second"
    by simp_all
  with Cons.IH[of "Suc index"] show ?case
    by (auto simp: zip_with_list_send_def split: prod.splits sum.splits)
qed

text \<open>
  C3, as the code has it. Completion is the answer to a value that arrives while the
  cursor equals the length of the sequence operand: that value is dropped, the cursor
  stays, and \<open>close\<close> is the only call made. The values that are combined, the one that
  produces the last result included, never call \<open>close\<close>: as long as the source has
  delivered no more values than the operand is long, nothing has been completed.
\<close>

theorem zip_with_list_closes_on_value_after_exhaustion:
  "zip_with_list_send result_mapper second left (length second) = (length second, [OnClose]) \<and>
   (length vs \<le> length second \<longrightarrow>
      OnClose \<notin> set (zip_with_list result_mapper second (map (Send 0) vs)))"
  using zip_with_list_no_close[of 0 vs second result_mapper]
  by (simp add: zip_with_list_send_def zip_with_list_def)

theorem zip_with_list_closes_on_value_after_exhaustion_witness:
  "zip_with_list_send (\<lambda>l r. Inr (l + r)) [10, 20 :: int] 3 (length [10, 20 :: int])
     = (2, [OnClose :: (int, unit) notification]) \<and>
   length [1, 2 :: int] \<le> length [10, 20 :: int] \<and>
   OnClose \<notin> set (zip_with_list (\<lambda>l r. Inr (l + r) :: unit + int) [10, 20] (map (Send 0) [1, 2]))"
  using zip_with_list_closes_on_value_after_exhaustion
    [of "\<lambda>l r. Inr (l + r) :: unit + int" "[10, 20]" 3 "[1, 2]"]
  by simp

text \<open>
  The claim C3 as stated fails: with the operand \<open>[10, 20]\<close> and a source that has sent
  \<open>1\<close> and \<open>2\<close>, both results have been sent and no completion has been delivered.
\<close>

theorem zip_with_list_no_completion_at_last_result:
  "zip_with_list (\<lambda>l r. Inr (l + r)) [10, 20 :: int] [Send 0 1, Send 0 2 :: (int, unit) event]
     = [OnSend 11, OnSend 22]"
  by (simp add: zip_with_list_def zip_with_list_send_def)

subsection \<open>The N-ary path: one notification\<close>

text \<open>
  C7, as the code has it. A value \<open>x\<close> arrives from source \<open>i\<close> while the queue of
  another source \<open>k\<close> is empty, so that not every queue is non-empty after the append.
  Then \<open>close\<close> is called exactly when the flag of every other source is set; the flag
  of \<open>i\<close> itself is not looked at. The completion of a source \<open>j\<close> sets its flag and
  calls \<open>close\<close> exactly when the flags of all the other sources are set already,
  whatever the queues hold. So a source whose queue is non-empty while all the others are
  done triggers nothing by that alone: when it is not done itself, the completion is
  delivered by its next value or by its own completion, whichever comes first; when it
  was done already, the completion of the last other source has delivered it at once.
\<close>

theorem zip_done_detection:
  assumes "length (queues st) = n" and "length (is_done st) = n"
      and "i < n" and "k < n" and "k \<noteq> i" and "queues st ! k = []"
  shows "zip_send result_mapper i x st =
           (st\<lparr>queues := (queues st)[i := queues st ! i @ [x]]\<rparr>,
            if \<forall>j<n. j \<noteq> i \<longrightarrow> is_done st ! j then [OnClose] else []) \<and>
         (\<forall>j<n. zip_notify result_mapper n st (Close j) =
            (st\<lparr>is_done := (is_done st)[j := True]\<rparr>,
             if \<forall>j'<n. j' \<noteq> j \<longrightarrow> is_done st ! j' then [OnClose] else []))"
proof
  from assms show "zip_send result_mapper i x st =
           (st\<lparr>queues := (queues st)[i := queues st ! i @ [x]]\<rparr>,
            if \<forall>j<n. j \<noteq> i \<longrightarrow> is_done st ! j then [OnClose] else [])"
    by (auto simp: zip_send_def zip_next_def others_done_iff all_nonempty_iff nth_list_update)
next
  show "\<forall>j<n. zip_notify result_mapper n st (Close j) =
            (st\<lparr>is_done := (is_done st)[j := True]\<rparr>,
             if \<forall>j'<n. j' \<noteq> j \<longrightarrow> is_done st ! j' then [OnClose] else [])"
  proof (intro allI impI)
    fix j assume j: "j < n"
    with assms(2) have "list_all (\<lambda>x. x) ((is_done st)[j := True])
        \<longleftrightarrow> (\<forall>j'<n. j' \<noteq> j \<longrightarrow> is_done st ! j')"
      by (auto simp: all_done_iff nth_list_update)
    with j show "zip_notify result_mapper n st (Close j) =
            (st\<lparr>is_done := (is_done st)[j := True]\<rparr>,
             if \<forall>j'<n. j' \<noteq> j \<longrightarrow> is_done st ! j' then [OnClose] else [])"
      by (auto simp: zip_done_def Let_def)
  qed
qed

theorem zip_done_detection_witness:
  "length (queues \<lparr>queues = [[7 :: int], []], is_done = [False, False]\<rparr>) = 2 \<and>
   queues \<lparr>queues = [[7 :: int], []], is_done = [False, False]\<rparr> ! 1 = [] \<and>
   zip_send (\<lambda>xs. Inr (sum_list xs) :: unit + int) 0 8
       \<lparr>queues = [[7], []], is_done = [False, False]\<rparr>
     = (\<lparr>queues = [[7, 8], []], is_done = [False, False]\<rparr>, []) \<and>
   zip_notify (\<lambda>xs. Inr (sum_list xs) :: unit + int) 2
       \<lparr>queues = [[7], []], is_done = [False, False]\<rparr> (Close 1)
     = (\<lparr>queues = [[7], []], is_done = [False, True]\<rparr>, [])"
proof -
  let ?st = "\<lparr>queues = [[7 :: int], []], is_done = [False, False]\<rparr>"
  let ?rm = "\<lambda>xs. Inr (sum_list xs) :: unit + int"
  have h: "length (queues ?st) = 2" "length (is_done ?st) = 2" "(0 :: nat) < 2" "(1 :: nat) < 2"
    "(1 :: nat) \<noteq> 0" "queues ?st ! 1 = []"
    by simp_all
  note inst = zip_done_detection
    [where st = ?st and n = 2 and i = 0 and k = 1 and x = 8 and result_mapper = ?rm, OF h]
  from inst have a: "zip_send ?rm 0 8 ?st = (\<lparr>queues = [[7, 8], []], is_done = [False, False]\<rparr>, [])"
    by (simp add: less_Suc_eq numeral_2_eq_2)
  from inst have "\<forall>j<2. zip_notify ?rm 2 ?st (Close j) =
            (?st\<lparr>is_done := (is_done ?st)[j := True]\<rparr>,
             if \<forall>j'<2. j' \<noteq> j \<longrightarrow> is_done ?st ! j' then [OnClose] else [])"
    by (rule conjunct2)
  with h(4) have "zip_notify ?rm 2 ?st (Close 1) =
            (?st\<lparr>is_done := (is_done ?st)[1 := True]\<rparr>,
             if \<forall>j'<2. j' \<noteq> 1 \<longrightarrow> is_done ?st ! j' then [OnClose] else [])"
    by blast
  moreover have "\<not> (\<forall>j'<2. j' \<noteq> 1 \<longrightarrow> is_done ?st ! j')"
    by (simp add: less_Suc_eq numeral_2_eq_2)
  ultimately have "zip_notify ?rm 2 ?st (Close 1)
      = (\<lparr>queues = [[7], []], is_done = [False, True]\<rparr>, [])"
    by simp
  with a h show ?thesis by simp
qed

text \<open>
  The claim C7 as stated fails in its second half: source 0 has sent \<open>7\<close> and source 1
  completes, so that the queue of source 0 is non-empty and all the others are done, and
  nothing is called. Then source 0 completes: \<open>close\<close> is called, although source 0 has
  delivered no further value.
\<close>

theorem zip_own_completion_completes:
  "zip_subscribe (\<lambda>xs. Inr (sum_list xs) :: unit + int) 2 [Send 0 7, Close 1] = [] \<and>
   zip_subscribe (\<lambda>xs. Inr (sum_list xs) :: unit + int) 2 [Send 0 7, Close 1, Close 0] = [OnClose]"
  by code_simp

text \<open>
  C9. When \<open>next\<close> finds every queue non-empty and the combiner raises \<open>ex\<close> on the
  heads, the only call on the observer is \<open>throw(ex)\<close>, and the state it leaves has the
  head of every queue removed: each queue of before is its own head followed by the queue
  of afterwards, so it is one element shorter, and nothing is put back.
\<close>

theorem zip_combiner_failure_leaves_queues_popped:
  assumes "list_all (\<lambda>q. length q \<noteq> 0) (queues st)"
      and "result_mapper (map hd (queues st)) = Inl ex"
  shows "snd (zip_next result_mapper i st) = [OnThrow ex] \<and>
         queues (fst (zip_next result_mapper i st)) = map tl (queues st) \<and>
         is_done (fst (zip_next result_mapper i st)) = is_done st \<and>
         (\<forall>k<length (queues st).
            queues st ! k = hd (queues st ! k) # queues (fst (zip_next result_mapper i st)) ! k \<and>
            Suc (length (queues (fst (zip_next result_mapper i st)) ! k)) = length (queues st ! k))"
  using assms by (simp add: zip_next_def all_nonempty_iff)

theorem zip_combiner_failure_leaves_queues_popped_witness:
  "list_all (\<lambda>q. length q \<noteq> 0) (queues \<lparr>queues = [[1, 2], [3 :: int]], is_done = [False, True]\<rparr>) \<and>
   snd (zip_next (\<lambda>xs. Inl (sum_list xs) :: int + int) 0
          \<lparr>queues = [[1, 2], [3]], is_done = [False, True]\<rparr>) = [OnThrow 4] \<and>
   queues (fst (zip_next (\<lambda>xs. Inl (sum_list xs) :: int + int) 0
          \<lparr>queues = [[1, 2], [3]], is_done = [False, True]\<rparr>)) = [[2], []]"
proof -
  let ?st = "\<lparr>queues = [[1, 2], [3 :: int]], is_done = [False, True]\<rparr>"
  have a: "list_all (\<lambda>q. length q \<noteq> 0) (queues ?st)" by simp
  have b: "(\<lambda>xs. Inl (sum_list xs) :: int + int) (map hd (queues ?st)) = Inl 4" by simp
  from zip_combiner_failure_leaves_queues_popped
         [where st = ?st and ex = 4 and i = 0
            and result_mapper = "\<lambda>xs. Inl (sum_list xs) :: int + int", OF a b] a
  show ?thesis by simp
qed

subsection \<open>The N-ary path without sources\<close>

text \<open>
  C8. With no source operand, \<open>subscribe\<close> installs no handler, and the observer never
  receives a value, whatever happens afterwards.
\<close>

theorem zip_no_sources_never_sends:
  "OnSend v \<notin> set (zip_subscribe result_mapper 0 evs)"
  by (simp add: zip_subscribe_def zip_run_zero)

text \<open>
  C10. With no source operand the observer receives no completion and no failure
  either: \<open>subscribe\<close> itself calls nothing on the observer, and no handler exists that
  could.
\<close>

theorem zip_no_sources_never_terminates:
  "OnClose \<notin> set (zip_subscribe result_mapper 0 evs) \<and>
   OnThrow ex \<notin> set (zip_subscribe result_mapper 0 evs) \<and>
   zip_subscribe result_mapper 0 [] = []"
  by (simp add: zip_subscribe_def zip_run_zero)

subsection \<open>The N-ary path: values and completion\<close>

lemma sent_append: "sent i (es @ fs) = sent i es @ sent i fs"
  by (induction i es rule: sent.induct) auto

lemma combined_append: "combined (ms @ ns) = combined ms @ combined ns"
  by (simp add: combined_def)

lemma outcome_not_close: "outcome r \<noteq> OnClose"
  by (cases r) simp_all

lemma zip_next_combines:
  "list_all (\<lambda>q. q \<noteq> []) (queues st) \<Longrightarrow>
     zip_next rm i st = (st\<lparr>queues := map tl (queues st)\<rparr>, [outcome (rm (map hd (queues st)))])"
  by (cases "rm (map hd (queues st))") (simp_all add: zip_next_def)

lemma zip_next_waits:
  "\<not> list_all (\<lambda>q. q \<noteq> []) (queues st) \<Longrightarrow>
     zip_next rm i st = (st, if \<forall>j<length (is_done st). j \<noteq> i \<longrightarrow> is_done st ! j then [OnClose] else [])"
  by (auto simp: zip_next_def others_done_iff)

lemma zip_inv_init: "zip_inv rm n [] (zip_init n) []"
  by (auto simp: zip_inv_def zip_init_def combined_def)

lemma zip_inv_silent:
  assumes inv: "zip_inv rm n evs st tr"
      and out: "combined out = []"
      and snt: "\<forall>j<n. sent j (evs @ [ev]) = sent j evs"
      and len: "length (queues st') = n" "length (is_done st') = n"
      and qs: "queues st' = queues st"
      and dn: "\<forall>j<n. is_done st' ! j = (Close j \<in> set (evs @ [ev]))"
  shows "zip_inv rm n (evs @ [ev]) st' (tr @ out)"
proof -
  let ?K = "length (combined tr)"
  have e: "(\<exists>i<n. length (sent i (evs @ [ev])) = ?K) = (\<exists>i<n. length (sent i evs) = ?K)"
    using snt by auto
  have "map (\<lambda>j. sent j (evs @ [ev]) ! k) [0..<n] = map (\<lambda>j. sent j evs ! k) [0..<n]" for k
    using snt by simp
  then have m: "map (\<lambda>k. outcome (rm (map (\<lambda>j. sent j (evs @ [ev]) ! k) [0..<n]))) [0..<?K]
             = map (\<lambda>k. outcome (rm (map (\<lambda>j. sent j evs ! k) [0..<n]))) [0..<?K]"
    by (simp only:)
  from inv out snt len qs dn show ?thesis
    unfolding zip_inv_def by (simp add: combined_append e m)
qed

lemma zip_inv_close:
  assumes "zip_inv rm n evs st tr" and "zip_notify rm n st (Close i) = (st', out)"
  shows "zip_inv rm n (evs @ [Close i]) st' (tr @ out)"
proof (rule zip_inv_silent[OF assms(1)])
  from assms(2) show "combined out = []"
    by (auto simp: zip_done_def Let_def combined_def split: if_splits)
  from assms show "length (queues st') = n" "length (is_done st') = n" "queues st' = queues st"
    by (auto simp: zip_inv_def zip_done_def Let_def split: if_splits)
  from assms show "\<forall>j<n. is_done st' ! j = (Close j \<in> set (evs @ [Close i]))"
    by (auto simp: zip_inv_def zip_done_def Let_def nth_list_update split: if_splits)
qed (simp add: sent_append)

lemma zip_inv_ignored:
  assumes "zip_inv rm n evs st tr" and "n \<le> source_of ev"
      and "zip_notify rm n st ev = (st', out)"
  shows "zip_inv rm n (evs @ [ev]) st' (tr @ out)"
proof (rule zip_inv_silent[OF assms(1)])
  from assms(2,3) have same: "st' = st" "out = []" by (cases ev; simp)+
  then show "combined out = []" by (simp add: combined_def)
  from same assms(1) show "length (queues st') = n" "length (is_done st') = n"
    "queues st' = queues st"
    by (simp_all add: zip_inv_def)
  from assms(2) show "\<forall>j<n. sent j (evs @ [ev]) = sent j evs"
    by (cases ev) (auto simp: sent_append)
  from same assms(1,2) show "\<forall>j<n. is_done st' ! j = (Close j \<in> set (evs @ [ev]))"
    by (cases ev) (auto simp: zip_inv_def)
qed

lemma zip_inv_send:
  assumes inv: "zip_inv rm n evs st tr"
      and i: "i < n"
      and step: "zip_notify rm n st (Send i x) = (st', out)"
  shows "zip_inv rm n (evs @ [Send i x]) st' (tr @ out)"
proof -
  let ?evs = "evs @ [Send i x]"
  let ?q1 = "(queues st)[i := queues st ! i @ [x]]"
  let ?st1 = "st\<lparr>queues := ?q1\<rparr>"
  let ?K = "length (combined tr)"
  from step i have step': "zip_next rm i ?st1 = (st', out)" by (simp add: zip_send_def)
  from inv have len: "length (queues st) = n" "length (is_done st) = n"
    and dn: "\<forall>j<n. is_done st ! j = (Close j \<in> set evs)"
    and le: "\<forall>j<n. ?K \<le> length (sent j evs)"
    and qs: "\<forall>j<n. queues st ! j = drop ?K (sent j evs)"
    and vs: "combined tr = map (\<lambda>k. outcome (rm (map (\<lambda>j. sent j evs ! k) [0..<n]))) [0..<?K]"
    unfolding zip_inv_def by simp_all
  from inv i obtain j0 where j0: "j0 < n" "length (sent j0 evs) = ?K"
    unfolding zip_inv_def by auto
  have le': "\<forall>j<n. ?K \<le> length (sent j ?evs)"
    using le by (auto simp: sent_append)
  have q1: "\<forall>j<n. ?q1 ! j = drop ?K (sent j ?evs)"
    using le qs len by (auto simp: sent_append nth_list_update)
  have old: "\<forall>j<n. \<forall>k<?K. sent j ?evs ! k = sent j evs ! k"
    using le by (auto simp: sent_append nth_append)
  have "map (\<lambda>k. outcome (rm (map (\<lambda>j. sent j evs ! k) [0..<n]))) [0..<?K]
          = map (\<lambda>k. outcome (rm (map (\<lambda>j. sent j ?evs ! k) [0..<n]))) [0..<?K]"
    using old by (auto intro!: arg_cong[where f = outcome] arg_cong[where f = rm])
  with vs have vs': "combined tr
      = map (\<lambda>k. outcome (rm (map (\<lambda>j. sent j ?evs ! k) [0..<n]))) [0..<?K]"
    by simp
  have dn': "\<forall>j<n. is_done st ! j = (Close j \<in> set ?evs)"
    using dn by simp
  show ?thesis
  proof (cases "list_all (\<lambda>q. q \<noteq> []) ?q1")
    case all: True
    with step' have st': "st' = st\<lparr>queues := map tl ?q1\<rparr>"
      and out: "out = [outcome (rm (map hd ?q1))]"
      by (simp_all add: zip_next_combines)
    have K': "length (combined (tr @ out)) = Suc ?K"
      by (simp add: out combined_def outcome_not_close)
    from all q1 len have lt: "\<forall>j<n. ?K < length (sent j ?evs)"
      by (auto simp: all_nonempty_iff)
    have a: "\<forall>j<n. queues st' ! j = drop (Suc ?K) (sent j ?evs)"
      using q1 len by (simp add: st' drop_Suc tl_drop)
    from j0 lt have "j0 = i" by (cases "j0 = i") (auto simp: sent_append)
    with j0 have b: "length (sent i ?evs) = Suc ?K" by (simp add: sent_append)
    have "map hd ?q1 = map (\<lambda>j. sent j ?evs ! ?K) [0..<n]"
      using q1 lt len by (intro nth_equalityI) (auto simp: hd_drop_conv_nth)
    with vs' have c: "combined (tr @ out)
        = map (\<lambda>k. outcome (rm (map (\<lambda>j. sent j ?evs ! k) [0..<n]))) [0..<Suc ?K]"
      by (simp add: combined_append out combined_def outcome_not_close)
    have d: "\<forall>j<n. Suc ?K \<le> length (sent j ?evs)" using lt by auto
    have e: "\<exists>j<n. length (sent j ?evs) = Suc ?K" using b i by blast
    show ?thesis
      unfolding zip_inv_def K' using a c d e len dn' by (simp add: st')
  next
    case notall: False
    with step' have st': "st' = ?st1" and out: "combined out = []"
      by (auto simp: zip_next_waits combined_def split: if_splits)
    have K': "length (combined (tr @ out)) = ?K"
      by (simp add: out combined_append)
    from notall len obtain k where k: "k < n" "?q1 ! k = []"
      by (auto simp: all_nonempty_iff)
    with q1 le' have "length (sent k ?evs) = ?K" by (auto simp: le_antisym)
    with k have e: "\<exists>j<n. length (sent j ?evs) = ?K" by blast
    have c: "combined (tr @ out)
        = map (\<lambda>k. outcome (rm (map (\<lambda>j. sent j ?evs ! k) [0..<n]))) [0..<?K]"
      using vs' by (simp add: combined_append out)
    show ?thesis
      unfolding zip_inv_def K' using le' q1 len dn' c e by (simp add: st')
  qed
qed

lemma zip_inv_step:
  assumes "zip_inv rm n evs st tr" and "zip_notify rm n st ev = (st', out)"
      and "\<forall>i ex. ev = Throw i ex \<longrightarrow> n \<le> i"
  shows "zip_inv rm n (evs @ [ev]) st' (tr @ out)"
proof (cases "source_of ev < n")
  case False
  with assms(1,2) show ?thesis by (intro zip_inv_ignored) auto
next
  case True
  show ?thesis
  proof (cases ev)
    case (Send i x)
    with assms True show ?thesis by (simp only: zip_inv_send source_of.simps)
  next
    case (Throw i ex)
    with assms(3) True show ?thesis by simp
  next
    case (Close i)
    with assms show ?thesis by (simp only: zip_inv_close)
  qed
qed

lemma zip_inv_run:
  assumes "zip_run rm n (zip_init n) evs = (st, tr)"
      and "\<forall>i ex. Throw i ex \<in> set evs \<longrightarrow> n \<le> i"
  shows "zip_inv rm n evs st tr"
  using assms
proof (induction evs arbitrary: st tr rule: rev_induct)
  case Nil
  then show ?case using zip_inv_init[of rm n] by simp
next
  case (snoc ev evs)
  obtain st1 tr1 where r1: "zip_run rm n (zip_init n) evs = (st1, tr1)"
    by (cases "zip_run rm n (zip_init n) evs")
  obtain st2 out where r2: "zip_notify rm n st1 ev = (st2, out)"
    by (cases "zip_notify rm n st1 ev")
  from snoc.prems(1) r1 r2 have "st = st2" and "tr = tr1 @ out"
    by (simp_all add: zip_run_append)
  moreover from snoc.prems(2) have "zip_inv rm n evs st1 tr1"
    by (intro snoc.IH[OF r1]) auto
  moreover from snoc.prems(2) have "\<forall>i ex. ev = Throw i ex \<longrightarrow> n \<le> i" by auto
  ultimately show ?case using zip_inv_step[OF _ r2] by simp
qed

lemma zip_send_stuck:
  assumes wf: "zip_wf n st" and i: "i < n" and nd: "\<not> is_done st ! i"
      and step: "zip_send rm i x st = (st', out)"
  shows "zip_wf n st'"
    and "zip_stuck n st \<Longrightarrow> zip_stuck n st' \<and> out = []  \<or> zip_stuck n st' \<and> out = [OnClose]"
    and "OnClose \<in> set out \<Longrightarrow> zip_stuck n st'"
    and "is_done st' = is_done st"
    and "out = [] \<or> (\<exists>y. out = [y])"
proof -
  let ?q1 = "(queues st)[i := queues st ! i @ [x]]"
  from wf have len: "length (queues st) = n" "length (is_done st) = n"
    by (simp_all add: zip_wf_def)
  from wf obtain k where k: "k < n" "queues st ! k = []" by (auto simp: zip_wf_def)
  show "is_done st' = is_done st"
    using step by (auto simp: zip_send_def zip_next_def Let_def split: if_splits sum.splits)
  show "out = [] \<or> (\<exists>y. out = [y])"
    using step by (auto simp: zip_send_def zip_next_def Let_def split: if_splits sum.splits)
  show "zip_wf n st'"
  proof (cases "list_all (\<lambda>q. q \<noteq> []) ?q1")
    case True
    with len k i have "k = i" by (cases "k = i") (auto simp: all_nonempty_iff)
    with k i len have "map tl ?q1 ! i = []" by simp
    moreover from True step have "queues st' = map tl ?q1" "is_done st' = is_done st"
      by (auto simp: zip_send_def zip_next_def Let_def split: sum.splits)
    ultimately show ?thesis using len i by (auto simp: zip_wf_def)
  next
    case False
    with step have "queues st' = ?q1" "is_done st' = is_done st"
      by (auto simp: zip_send_def zip_next_def split: if_splits)
    with False len show ?thesis by (auto simp: zip_wf_def all_nonempty_iff)
  qed
  show "zip_stuck n st' \<and> out = []  \<or> zip_stuck n st' \<and> out = [OnClose]" if "zip_stuck n st"
  proof -
    from that obtain j where j: "j < n" "is_done st ! j" "queues st ! j = []"
      by (auto simp: zip_stuck_def)
    with nd have "j \<noteq> i" by auto
    with j len have "?q1 ! j = []" by simp
    with j len have "\<not> list_all (\<lambda>q. q \<noteq> []) ?q1" by (auto simp: all_nonempty_iff)
    with step have "queues st' = ?q1" "is_done st' = is_done st" "out = [] \<or> out = [OnClose]"
      by (auto simp: zip_send_def zip_next_def split: if_splits)
    with j \<open>?q1 ! j = []\<close> show ?thesis by (auto simp: zip_stuck_def)
  qed
  show "zip_stuck n st'" if "OnClose \<in> set out"
  proof -
    from that step have na: "\<not> list_all (\<lambda>q. q \<noteq> []) ?q1"
      and od: "\<forall>j<n. j \<noteq> i \<longrightarrow> is_done st ! j"
      and st': "queues st' = ?q1" "is_done st' = is_done st"
      using len by (auto simp: zip_send_def zip_next_def others_done_iff Let_def split: if_splits sum.splits)
    from na len obtain j where j: "j < n" "?q1 ! j = []" by (auto simp: all_nonempty_iff)
    with i len have "j \<noteq> i" by (cases "j = i") auto
    with j od st' show ?thesis by (auto simp: zip_stuck_def)
  qed
qed

lemma zip_done_stuck:
  assumes wf: "zip_wf n st" and i: "i < n"
      and step0: "zip_notify rm n st (Close i) = (st', out)"
  shows "zip_wf n st'"
    and "zip_stuck n st \<Longrightarrow> zip_stuck n st'"
    and "OnClose \<in> set out \<Longrightarrow> zip_stuck n st'"
    and "is_done st' = (is_done st)[i := True]"
    and "out = [] \<or> out = [OnClose]"
proof -
  from wf have len: "length (queues st) = n" "length (is_done st) = n"
    by (simp_all add: zip_wf_def)
  from wf obtain k where k: "k < n" "queues st ! k = []" by (auto simp: zip_wf_def)
  from step0 i have step: "zip_done i st = (st', out)" by simp
  from step have st': "queues st' = queues st" "is_done st' = (is_done st)[i := True]"
    by (auto simp: zip_done_def Let_def split: if_splits)
  show "is_done st' = (is_done st)[i := True]" by fact
  show "out = [] \<or> out = [OnClose]"
    using step by (auto simp: zip_done_def Let_def split: if_splits)
  show "zip_wf n st'" using wf st' by (auto simp: zip_wf_def)
  show "zip_stuck n st'" if "zip_stuck n st"
  proof -
    from that obtain j where j: "j < n" "is_done st ! j" "queues st ! j = []"
      by (auto simp: zip_stuck_def)
    with len i have "(is_done st)[i := True] ! j" by (simp add: nth_list_update)
    with j st' show ?thesis by (auto simp: zip_stuck_def)
  qed
  show "zip_stuck n st'" if "OnClose \<in> set out"
  proof -
    from that step have "list_all (\<lambda>x. x) ((is_done st)[i := True])"
      by (auto simp: zip_done_def Let_def split: if_splits)
    with len k have "(is_done st)[i := True] ! k" by (simp add: all_done_iff)
    with k st' show ?thesis by (auto simp: zip_stuck_def)
  qed
qed

lemma zip_run_after_close:
  assumes "zip_wf n st" and "closed \<longrightarrow> zip_stuck n st"
      and "\<forall>i<n. is_done st ! i \<longrightarrow> sent i evs = []" and "quiet_after_close evs"
      and "P OnClose" and "\<forall>i ex. i < n \<and> Throw i ex \<in> set evs \<longrightarrow> P (OnThrow ex)"
  shows "after_close P closed (snd (zip_run rm n st evs))"
  using assms(1-4,6)
proof (induction evs arbitrary: st closed)
  case Nil
  show ?case by simp
next
  case (Cons ev evs)
  show ?case
  proof (cases ev)
    case (Throw i ex)
    with Cons.prems have "after_close P closed (snd (zip_run rm n st evs))"
      by (intro Cons.IH) auto
    moreover from Throw Cons.prems(5) have "i < n \<longrightarrow> P (OnThrow ex)" by auto
    ultimately show ?thesis using Throw by (simp add: case_prod_beta)
  next
    case (Close i)
    show ?thesis
    proof (cases "i < n")
      case False
      with Close Cons.prems have "after_close P closed (snd (zip_run rm n st evs))"
        by (intro Cons.IH) auto
      with Close False show ?thesis by (simp add: case_prod_beta)
    next
      case True
      obtain st' out where step: "zip_notify rm n st (Close i) = (st', out)"
        by (cases "zip_notify rm n st (Close i)")
      note d = zip_done_stuck[OF Cons.prems(1) True step]
      let ?closed = "closed \<or> OnClose \<in> set out"
      have "after_close P ?closed (snd (zip_run rm n st' evs))"
      proof (rule Cons.IH)
        show "zip_wf n st'" by (rule d(1))
        show "?closed \<longrightarrow> zip_stuck n st'" using d(2,3) Cons.prems(2) by blast
        show "quiet_after_close evs" using Cons.prems(4) Close by simp
        from Cons.prems(1) have "length (is_done st) = n" by (simp add: zip_wf_def)
        then show "\<forall>j<n. is_done st' ! j \<longrightarrow> sent j evs = []"
          using Cons.prems(3,4) Close d(4) True by (auto simp: nth_list_update split: if_splits)
        show "\<forall>i ex. i < n \<and> Throw i ex \<in> set evs \<longrightarrow> P (OnThrow ex)"
          using Cons.prems(5) by auto
      qed
      with d(5) Close True step assms(5) show ?thesis by (auto simp: case_prod_beta)
    qed
  next
    case (Send i x)
    show ?thesis
    proof (cases "i < n")
      case False
      with Send Cons.prems have "after_close P closed (snd (zip_run rm n st evs))"
        by (intro Cons.IH) auto
      with Send False show ?thesis by (simp add: case_prod_beta)
    next
      case True
      with Cons.prems(3) Send have nd: "\<not> is_done st ! i" by auto
      obtain st' out where step: "zip_send rm i x st = (st', out)" by (cases "zip_send rm i x st")
      note d = zip_send_stuck[OF Cons.prems(1) True nd step]
      let ?closed = "closed \<or> OnClose \<in> set out"
      have rest: "after_close P ?closed (snd (zip_run rm n st' evs))"
      proof (rule Cons.IH)
        show "zip_wf n st'" by (rule d(1))
        show "?closed \<longrightarrow> zip_stuck n st'" using d(2,3) Cons.prems(2) by blast
        show "quiet_after_close evs" using Cons.prems(4) Send by simp
        show "\<forall>j<n. is_done st' ! j \<longrightarrow> sent j evs = []"
          using Cons.prems(3) Send d(4) by (auto split: if_splits)
        show "\<forall>i ex. i < n \<and> Throw i ex \<in> set evs \<longrightarrow> P (OnThrow ex)"
          using Cons.prems(5) by auto
      qed
      from d(5) show ?thesis
      proof
        assume "out = []"
        with rest Send True step show ?thesis by (simp add: case_prod_beta)
      next
        assume "\<exists>y. out = [y]"
        then obtain y where y: "out = [y]" ..
        show ?thesis
        proof (cases closed)
          case False
          have "(OnClose \<in> set out) = (y = OnClose)" using y by auto
          with rest False have "after_close P (y = OnClose) (snd (zip_run rm n st' evs))"
            by simp
          with False y Send True step show ?thesis by (simp add: case_prod_beta)
        next
          case closed: True
          with Cons.prems(2) d(2) y have "out = [OnClose]" by auto
          with rest closed Send True step assms(5) show ?thesis by (auto simp: case_prod_beta)
        qed
      qed
    qed
  qed
qed

lemma after_close_True: "after_close P True ns \<Longrightarrow> x \<in> set ns \<Longrightarrow> P x"
  by (induction ns) auto

lemma zip_wf_init: "0 < n \<Longrightarrow> zip_wf n (zip_init n)"
  by (auto simp: zip_wf_def zip_init_def)

lemma zip_subscribe_after_close:
  assumes "quiet_after_close evs" and "P OnClose"
      and "\<forall>i ex. Throw i ex \<in> set evs \<longrightarrow> P (OnThrow ex)"
  shows "after_close P False (zip_subscribe rm n evs)"
proof (cases "n = 0")
  case True
  then show ?thesis by (simp add: zip_subscribe_def zip_run_zero)
next
  case False
  then have "zip_wf n (zip_init n)" by (simp add: zip_wf_init)
  moreover have "\<forall>i<n. is_done (zip_init n :: 'a zip_state) ! i \<longrightarrow> sent i evs = []"
    by (simp add: zip_init_def)
  ultimately have "after_close P False (snd (zip_run rm n (zip_init n) evs))"
    using assms by (intro zip_run_after_close) auto
  then show ?thesis by (simp add: zip_subscribe_def)
qed

lemma zip_run_filter:
  "zip_run rm n st (filter (\<lambda>ev. source_of ev < n) evs) = zip_run rm n st evs"
proof (induction evs arbitrary: st)
  case Nil
  show ?case by simp
next
  case (Cons ev evs)
  then show ?case by (cases ev) (auto simp: case_prod_beta)
qed

lemma sent_filter: "sent i (filter (\<lambda>ev. source_of ev = i) evs) = sent i evs"
  by (induction i evs rule: sent.induct) auto

lemma sent_map_Send: "sent i (map (Send i) s) = s"
  by (induction s) auto

lemma emits_then_completes_sent:
  "emits_then_completes i s evs \<Longrightarrow> sent i evs = s"
  using sent_filter[of i evs] by (simp add: emits_then_completes_def sent_append sent_map_Send)

lemma quiet_after_closeI:
  "(\<And>p i r. evs = p @ Close i # r \<Longrightarrow> sent i r = []) \<Longrightarrow> quiet_after_close evs"
proof (induction evs)
  case Nil
  show ?case by simp
next
  case (Cons ev evs)
  have "quiet_after_close evs"
  proof (rule Cons.IH)
    fix p i r
    assume "evs = p @ Close i # r"
    then have "ev # evs = (ev # p) @ Close i # r" by simp
    then show "sent i r = []" by (rule Cons.prems)
  qed
  moreover have "sent i evs = []" if "ev = Close i" for i
    using Cons.prems[of "[]" i evs] that by simp
  ultimately show ?case by (cases ev) auto
qed

lemma before_last_in_front:
  assumes "xs @ y # ys = zs @ [z]" and "ys \<noteq> []"
  shows "y \<in> set zs"
proof (cases ys rule: rev_cases)
  case Nil
  with assms(2) show ?thesis by simp
next
  case (snoc ys' w)
  with assms(1) have "(xs @ y # ys') @ [w] = zs @ [z]" by simp
  then have "xs @ y # ys' = zs" by simp
  then show ?thesis by auto
qed

lemma emits_then_completes_quiet:
  assumes "emits_then_completes i s (p @ Close i # r)"
  shows "sent i r = []"
proof -
  let ?F = "filter (\<lambda>ev. source_of ev = i)"
  from assms have eq: "?F p @ Close i # ?F r = map (Send i) s @ [Close i]"
    by (simp add: emits_then_completes_def)
  have "?F r = []"
  proof (rule ccontr)
    assume "?F r \<noteq> []"
    from before_last_in_front[OF eq this] show False by auto
  qed
  with sent_filter[of i r] show ?thesis by simp
qed

lemma only_close_shape:
  "after_close (\<lambda>x. x = OnClose) closed ns \<Longrightarrow>
     \<exists>m. ns = combined ns @ replicate m OnClose"
proof (induction ns arbitrary: closed)
  case Nil
  show ?case by (simp add: combined_def)
next
  case (Cons x ns)
  show ?case
  proof (cases "x = OnClose")
    case False
    with Cons obtain m where "ns = combined ns @ replicate m OnClose" by auto
    with False have "x # ns = combined (x # ns) @ replicate m OnClose"
      by (simp add: combined_def)
    then show ?thesis ..
  next
    case True
    with Cons.prems have "after_close (\<lambda>x. x = OnClose) True ns" by simp
    then have "\<forall>y\<in>set ns. y = OnClose" by (auto dest: after_close_True)
    then have "ns = replicate (length ns) OnClose" and "combined ns = []"
      by (simp_all add: combined_def replicate_length_same filter_empty_conv)
    with True have "x # ns = combined (x # ns) @ replicate (Suc (length ns)) OnClose"
      by (simp add: combined_def)
    then show ?thesis ..
  qed
qed

lemma close_in_shape:
  "OnClose \<in> set ns \<Longrightarrow> ns = map OnSend vs @ replicate m OnClose \<Longrightarrow> \<exists>m'. m = Suc m'"
  by (cases m) auto

lemma zip_last_close:
  assumes run: "zip_run rm n (zip_init n) (es @ [Close i]) = (st, tr)"
      and i: "i < n"
      and all: "\<forall>j<n. j \<noteq> i \<longrightarrow> Close j \<in> set es"
      and nothrow: "\<forall>i ex. Throw i ex \<notin> set es"
  shows "OnClose \<in> set tr"
proof -
  obtain st1 tr1 where r1: "zip_run rm n (zip_init n) es = (st1, tr1)"
    by (cases "zip_run rm n (zip_init n) es")
  with nothrow have inv: "zip_inv rm n es st1 tr1" by (intro zip_inv_run) auto
  then have len: "length (is_done st1) = n" and dn: "\<forall>j<n. is_done st1 ! j = (Close j \<in> set es)"
    by (simp_all add: zip_inv_def)
  from len dn all i have all_done: "list_all (\<lambda>x. x) ((is_done st1)[i := True])"
    by (auto simp: all_done_iff nth_list_update)
  obtain st2 out where step: "zip_notify rm n st1 (Close i) = (st2, out)"
    by (cases "zip_notify rm n st1 (Close i)")
  with i all_done have "out = [OnClose]"
    by (simp add: zip_done_def)
  moreover from run r1 step have "tr = tr1 @ out" by (simp add: zip_run_append)
  ultimately show ?thesis by simp
qed

lemma Min_lengths:
  assumes "ss \<noteq> []" and "\<forall>i<length ss. K \<le> length (ss ! i)" and "\<exists>i<length ss. length (ss ! i) = K"
  shows "Min (set (map length ss)) = K"
proof (rule Min_eqI)
  show "finite (set (map length ss))" by simp
  show "K \<le> y" if "y \<in> set (map length ss)" for y
    using that assms(2) by (auto simp: in_set_conv_nth)
  from assms(3) obtain i where "i < length ss" and "length (ss ! i) = K" by blast
  then have "ss ! i \<in> set ss" and "length (ss ! i) = K" by simp_all
  then show "K \<in> set (map length ss)" by force
qed

lemma zip_emits_core:
  assumes ne: "ss \<noteq> []"
      and src: "\<forall>i<length ss. emits_then_completes i (ss ! i) evs"
      and rng: "\<forall>ev\<in>set evs. source_of ev < length ss"
      and ret: "\<forall>k<Min (set (map length ss)).
                  result_mapper (map (\<lambda>s. s ! k) ss) = Inr (f (map (\<lambda>s. s ! k) ss))"
  shows "\<exists>m. snd (zip_run result_mapper (length ss) (zip_init (length ss)) evs) =
           map OnSend (map (\<lambda>k. f (map (\<lambda>s. s ! k) ss)) [0..<Min (set (map length ss))])
             @ replicate (Suc m) OnClose"
proof -
  let ?n = "length ss"
  let ?rm = result_mapper
  from ne have n: "0 < ?n" by simp
  have flt: "filter (\<lambda>ev. source_of ev = i) evs = map (Send i) (ss ! i) @ [Close i]" if "i < ?n" for i
    using src that by (simp add: emits_then_completes_def)
  have mem: "ev \<in> set (map (Send (source_of ev)) (ss ! source_of ev) @ [Close (source_of ev)])"
    if "ev \<in> set evs" for ev
  proof -
    from that rng have "source_of ev < ?n" by blast
    note eq = flt[OF this]
    from that have "ev \<in> set (filter (\<lambda>e. source_of e = source_of ev) evs)" by simp
    then show ?thesis by (simp only: eq)
  qed
  have nothrow: "\<forall>i ex. Throw i ex \<notin> set evs"
  proof (intro allI notI)
    fix i ex assume "Throw i ex \<in> set evs"
    from mem[OF this] show False by auto
  qed
  have closes: "Close i \<in> set evs" if "i < ?n" for i
  proof -
    from flt[OF that] have "Close i \<in> set (filter (\<lambda>ev. source_of ev = i) evs)"
      by simp
    then show ?thesis by simp
  qed
  have quiet: "quiet_after_close evs"
  proof (rule quiet_after_closeI)
    fix p i r
    assume eq: "evs = p @ Close i # r"
    with rng have "i < ?n" by auto
    with src eq have "emits_then_completes i (ss ! i) (p @ Close i # r)" by blast
    then show "sent i r = []" by (rule emits_then_completes_quiet)
  qed
  obtain st tr where run: "zip_run ?rm ?n (zip_init ?n) evs = (st, tr)"
    by (cases "zip_run ?rm ?n (zip_init ?n) evs")
  with nothrow have inv: "zip_inv ?rm ?n evs st tr" by (intro zip_inv_run) auto
  let ?K = "length (combined tr)"
  have snt: "sent i evs = ss ! i" if "i < ?n" for i
    using src that by (auto intro: emits_then_completes_sent)
  from inv snt have le: "\<forall>i<?n. ?K \<le> length (ss ! i)" by (simp add: zip_inv_def)
  from inv snt n have ex: "\<exists>i<?n. length (ss ! i) = ?K" by (auto simp: zip_inv_def)
  from ne le ex have K: "Min (set (map length ss)) = ?K" by (rule Min_lengths)
  have tup: "map (\<lambda>i. sent i evs ! k) [0..<?n] = map (\<lambda>s. s ! k) ss" for k
    using snt by (intro nth_equalityI) simp_all
  let ?M = "Min (set (map length ss))"
  from inv have "combined tr = map (\<lambda>k. outcome (?rm (map (\<lambda>i. sent i evs ! k) [0..<?n]))) [0..<?K]"
    by (simp add: zip_inv_def)
  then have "combined tr = map (\<lambda>k. outcome (?rm (map (\<lambda>s. s ! k) ss))) [0..<?K]"
    by (simp only: tup)
  then have c: "combined tr = map (\<lambda>k. outcome (?rm (map (\<lambda>s. s ! k) ss))) [0..<?M]"
    by (simp only: K)
  from ret have "map (\<lambda>k. outcome (?rm (map (\<lambda>s. s ! k) ss))) [0..<?M]
                   = map (\<lambda>k. OnSend (f (map (\<lambda>s. s ! k) ss))) [0..<?M]"
    by simp
  with c have vals: "combined tr = map OnSend (map (\<lambda>k. f (map (\<lambda>s. s ! k) ss)) [0..<?M])"
    by (simp add: comp_def)
  from quiet nothrow have "after_close (\<lambda>x. x = OnClose) False (zip_subscribe ?rm ?n evs)"
    by (intro zip_subscribe_after_close) auto
  with run have "after_close (\<lambda>x. x = OnClose) False tr" by (simp add: zip_subscribe_def)
  then obtain m where shape: "tr = combined tr @ replicate m OnClose"
    using only_close_shape by blast
  have "OnClose \<in> set tr"
  proof -
    from closes[OF n] have "evs \<noteq> []" by auto
    then obtain es ev where es: "evs = es @ [ev]" using rev_exhaust by blast
    from es rng have "source_of ev < ?n" by simp
    from flt[OF this] es
    have "filter (\<lambda>e. source_of e = source_of ev) es @ [ev]
            = map (Send (source_of ev)) (ss ! source_of ev) @ [Close (source_of ev)]"
      by simp
    then have "ev = Close (source_of ev)" by simp
    then obtain i where ev: "ev = Close i" by blast
    with es rng have i: "i < ?n" by simp
    have "\<forall>j<?n. j \<noteq> i \<longrightarrow> Close j \<in> set es"
    proof (intro allI impI)
      fix j assume "j < ?n" and "j \<noteq> i"
      from closes[OF \<open>j < ?n\<close>] have "Close j \<in> set (es @ [Close i])" by (simp only: es ev)
      with \<open>j \<noteq> i\<close> show "Close j \<in> set es" by simp
    qed
    moreover from run es ev have "zip_run ?rm ?n (zip_init ?n) (es @ [Close i]) = (st, tr)"
      by simp
    moreover from nothrow es have "\<forall>i ex. Throw i ex \<notin> set es" by simp
    ultimately show ?thesis using i
      by (intro zip_last_close[where rm = ?rm and i = i and es = es and st = st])
  qed
  from shape[unfolded vals] have shape': "tr = map OnSend (map (\<lambda>k. f (map (\<lambda>s. s ! k) ss))
      [0..<Min (set (map length ss))]) @ replicate m OnClose" .
  from close_in_shape[OF \<open>OnClose \<in> set tr\<close> shape'] obtain m' where m': "m = Suc m'" ..
  with run shape' show ?thesis by auto
qed

text \<open>
  C1. There are \<open>length ss\<close> sources, at least one; source \<open>i\<close> delivers the values
  \<open>ss ! i\<close> and completes, no source fails, and the notifications of the sources are
  interleaved in any way. The combiner returns on the aligned tuples, its value being
  \<open>f\<close> of the tuple. The calls on the observer are then: one value for each position
  \<open>k\<close> below the least of the lengths, which is \<open>f\<close> applied to the \<open>k\<close>-th value of
  every source in the order of the sources, and after these values nothing but
  \<open>close\<close>, at least once.
\<close>

theorem zip_emits_min_aligned_tuples:
  assumes ne: "ss \<noteq> []"
      and src: "\<forall>i<length ss. emits_then_completes i (ss ! i) evs"
      and ret: "\<forall>k<Min (set (map length ss)).
                  result_mapper (map (\<lambda>s. s ! k) ss) = Inr (f (map (\<lambda>s. s ! k) ss))"
  shows "\<exists>m. zip_subscribe result_mapper (length ss) evs =
           map OnSend (map (\<lambda>k. f (map (\<lambda>s. s ! k) ss)) [0..<Min (set (map length ss))])
             @ replicate (Suc m) OnClose"
proof -
  let ?n = "length ss"
  define evs' where "evs' = filter (\<lambda>ev. source_of ev < ?n) evs"
  have "emits_then_completes i (ss ! i) evs'" if "i < ?n" for i
  proof -
    have "filter (\<lambda>ev. source_of ev = i) evs'
            = filter (\<lambda>ev. source_of ev < ?n \<and> source_of ev = i) evs"
      by (simp add: evs'_def)
    also from that have "\<dots> = filter (\<lambda>ev. source_of ev = i) evs"
      by (intro filter_cong) auto
    finally show ?thesis using src that by (simp add: emits_then_completes_def)
  qed
  then have "\<forall>i<?n. emits_then_completes i (ss ! i) evs'" by blast
  moreover have "\<forall>ev\<in>set evs'. source_of ev < ?n" by (simp add: evs'_def)
  ultimately have "\<exists>m. snd (zip_run result_mapper ?n (zip_init ?n) evs') =
           map OnSend (map (\<lambda>k. f (map (\<lambda>s. s ! k) ss)) [0..<Min (set (map length ss))])
             @ replicate (Suc m) OnClose"
    using ne ret by (intro zip_emits_core)
  then show ?thesis by (simp add: zip_subscribe_def evs'_def zip_run_filter)
qed

theorem zip_emits_min_aligned_tuples_witness:
  "[[1, 2, 3], [10, 20 :: int]] \<noteq> [] \<and>
   emits_then_completes 0 [1, 2, 3]
     [Send 0 1, Send 1 10, Send 0 2, Send 0 3, Close 0, Send 1 (20 :: int), Close 1 :: (int, unit) event] \<and>
   emits_then_completes 1 [10, 20]
     [Send 0 1, Send 1 10, Send 0 2, Send 0 3, Close 0, Send 1 (20 :: int), Close 1 :: (int, unit) event] \<and>
   (\<exists>m. zip_subscribe (\<lambda>xs. Inr (sum_list xs)) 2
          [Send 0 1, Send 1 10, Send 0 2, Send 0 3, Close 0, Send 1 (20 :: int), Close 1 :: (int, unit) event]
        = [OnSend 11, OnSend 22] @ replicate (Suc m) OnClose)"
proof -
  let ?ss = "[[1, 2, 3], [10, 20 :: int]]"
  let ?evs = "[Send 0 1, Send 1 10, Send 0 2, Send 0 3, Close 0, Send 1 (20 :: int), Close 1
                :: (int, unit) event]"
  let ?rm = "\<lambda>xs. Inr (sum_list xs) :: unit + int"
  have a: "?ss \<noteq> []" by simp
  have b0: "emits_then_completes 0 (?ss ! 0) ?evs" by (simp add: emits_then_completes_def)
  have b1: "emits_then_completes 1 (?ss ! 1) ?evs" by (simp add: emits_then_completes_def)
  have b: "\<forall>i<length ?ss. emits_then_completes i (?ss ! i) ?evs"
  proof (intro allI impI)
    fix i assume "i < length ?ss"
    then have "i = 0 \<or> i = 1" by auto
    with b0 b1 show "emits_then_completes i (?ss ! i) ?evs" by blast
  qed
  have r: "\<forall>k<Min (set (map length ?ss)).
             ?rm (map (\<lambda>s. s ! k) ?ss) = Inr (sum_list (map (\<lambda>s. s ! k) ?ss))"
    by simp
  have len: "length ?ss = 2" by simp
  have c: "map (\<lambda>k. sum_list (map (\<lambda>s. s ! k) ?ss)) [0..<Min (set (map length ?ss))] = [11, 22]"
    by (simp add: upt_rec numeral_eq_Suc)
  from zip_emits_min_aligned_tuples [where result_mapper = ?rm and f = sum_list, OF a b r]
  have "\<exists>m. zip_subscribe ?rm 2 ?evs = map OnSend [11, 22] @ replicate (Suc m) OnClose"
    by (simp only: c len)
  then have "\<exists>m. zip_subscribe ?rm 2 ?evs = [OnSend 11, OnSend 22] @ replicate (Suc m) OnClose"
    by simp
  with a b0 b1 show ?thesis by simp
qed

subsection \<open>Termination of the combined sequence\<close>

lemma zip_notify_out:
  "zip_notify rm n st ev = (st', out) \<Longrightarrow> out = [] \<or> (\<exists>y. out = [y])"
  by (cases ev)
     (auto simp: zip_send_def zip_next_def zip_done_def Let_def split: if_splits sum.splits)

lemma combined_run_append:
  "combined_run rm n cs (es @ fs) =
     (case combined_run rm n cs es of
        (cs', out) \<Rightarrow> (case combined_run rm n cs' fs of (cs'', outs) \<Rightarrow> (cs'', out @ outs)))"
  by (induction es arbitrary: cs) (auto split: prod.splits)

lemma combined_run_disposed:
  "subscriptions cs = replicate m False \<Longrightarrow> combined_run rm n cs evs = (cs, [])"
  by (induction evs) (auto simp: combined_notify_def)

lemma combined_run_live:
  assumes "subscriptions cs = replicate n True"
  shows "(\<not> list_ex is_terminal (snd (combined_run rm n cs evs)) \<and>
          subscriptions (fst (combined_run rm n cs evs)) = replicate n True) \<or>
         (\<exists>ns x. snd (combined_run rm n cs evs) = ns @ [x] \<and> is_terminal x \<and>
                 \<not> list_ex is_terminal ns \<and>
                 subscriptions (fst (combined_run rm n cs evs)) = replicate n False)"
  using assms
proof (induction evs arbitrary: cs)
  case Nil
  then show ?case by simp
next
  case (Cons ev evs)
  obtain cs' out where step: "combined_notify rm n cs ev = (cs', out)"
    by (cases "combined_notify rm n cs ev")
  show ?case
  proof (cases "source_of ev < n")
    case False
    with step Cons.prems have "cs' = cs" "out = []" by (auto simp: combined_notify_def)
    with Cons.IH[OF Cons.prems] step show ?thesis by (simp add: case_prod_beta)
  next
    case True
    obtain st' zout where z: "zip_notify rm n (zip_st cs) ev = (st', zout)"
      by (cases "zip_notify rm n (zip_st cs) ev")
    with step True Cons.prems have out: "out = zout"
      and cs': "subscriptions cs' = (if list_ex is_terminal out then replicate n False
                                    else replicate n True)"
      by (auto simp: combined_notify_def dispose_def map_replicate_const)
    from zip_notify_out[OF z] out have shape: "out = [] \<or> (\<exists>y. out = [y])" by simp
    show ?thesis
    proof (cases "list_ex is_terminal out")
      case False
      with cs' have "subscriptions cs' = replicate n True" by simp
      from Cons.IH[OF this] show ?thesis
      proof
        assume "\<not> list_ex is_terminal (snd (combined_run rm n cs' evs)) \<and>
          subscriptions (fst (combined_run rm n cs' evs)) = replicate n True"
        with False step show ?thesis by (simp add: case_prod_beta)
      next
        assume "\<exists>ns x. snd (combined_run rm n cs' evs) = ns @ [x] \<and> is_terminal x \<and>
                 \<not> list_ex is_terminal ns \<and>
                 subscriptions (fst (combined_run rm n cs' evs)) = replicate n False"
        then obtain ns x where r: "snd (combined_run rm n cs' evs) = ns @ [x]" "is_terminal x"
          "\<not> list_ex is_terminal ns"
          "subscriptions (fst (combined_run rm n cs' evs)) = replicate n False"
          by blast
        with False step have "snd (combined_run rm n cs (ev # evs)) = (out @ ns) @ [x]"
          "\<not> list_ex is_terminal (out @ ns)"
          "subscriptions (fst (combined_run rm n cs (ev # evs))) = replicate n False"
          by (simp_all add: case_prod_beta)
        with r(2) show ?thesis by blast
      qed
    next
      case stop: True
      with shape obtain y where y: "out = [y]" "is_terminal y" by auto
      from stop cs' have "subscriptions cs' = replicate n False" by simp
      then have "combined_run rm n cs' evs = (cs', [])" by (rule combined_run_disposed)
      with step y \<open>subscriptions cs' = replicate n False\<close>
      have "snd (combined_run rm n cs (ev # evs)) = [] @ [y]"
        "subscriptions (fst (combined_run rm n cs (ev # evs))) = replicate n False"
        by simp_all
      moreover have "\<not> list_ex is_terminal ([] :: ('b, 'e) notification list)" by simp
      ultimately show ?thesis using y(2) by blast
    qed
  qed
qed

lemma terminal_last:
  assumes "ms @ [y] = ns @ x # ns'" and "is_terminal x" and "\<not> list_ex is_terminal ms"
  shows "ns' = []"
proof (rule ccontr)
  assume "ns' \<noteq> []"
  then obtain ns'' z where "ns' = ns'' @ [z]" using rev_exhaust by blast
  with assms(1) have "ms @ [y] = (ns @ x # ns'') @ [z]" by simp
  then have "ms = ns @ x # ns''" by simp
  with assms(2,3) show False by (simp add: list_ex_iff)
qed

lemma combined_run_subscriptions:
  "subscriptions cs = replicate n True \<Longrightarrow>
     length (subscriptions (fst (combined_run rm n cs evs))) = n"
  using combined_run_live[of cs n rm evs] by auto

text \<open>
  C5. The notifications \<open>evs\<close> have arrived at a new subscription and the handle of
  source \<open>i\<close> is still live. Its value \<open>x\<close> completes a tuple on which the combiner
  raises \<open>ex\<close>. Then the failure \<open>ex\<close> is what goes downstream for this value, and no
  value for that tuple; every handle is disposed at once; and whatever notifications
  \<open>evs'\<close> come afterwards, nothing more goes downstream and the state of the handlers
  stays as the failing call left it, so none of them is processed.
\<close>

theorem zip_combiner_failure_terminates:
  assumes "combined_run result_mapper n (combined_init n) evs = (cs, tr)"
      and "i < n" and "subscriptions cs ! i"
      and "list_all (\<lambda>q. q \<noteq> []) ((queues (zip_st cs))[i := queues (zip_st cs) ! i @ [x]])"
      and "result_mapper (map hd ((queues (zip_st cs))[i := queues (zip_st cs) ! i @ [x]])) = Inl ex"
  shows "combined_run result_mapper n (combined_init n) (evs @ Send i x # evs') =
           (\<lparr>zip_st = (zip_st cs)\<lparr>queues :=
                         map tl ((queues (zip_st cs))[i := queues (zip_st cs) ! i @ [x]])\<rparr>,
             subscriptions = replicate n False\<rparr>,
            tr @ [OnThrow ex]) \<and>
         combined_subscribe result_mapper n (evs @ Send i x # evs') = tr @ [OnThrow ex]"
proof -
  let ?cs' = "\<lparr>zip_st = (zip_st cs)\<lparr>queues :=
                         map tl ((queues (zip_st cs))[i := queues (zip_st cs) ! i @ [x]])\<rparr>,
             subscriptions = replicate n False\<rparr>"
  have "length (subscriptions (fst (combined_run result_mapper n (combined_init n) evs))) = n"
    by (rule combined_run_subscriptions) (simp add: combined_init_def)
  with assms(1) have len: "length (subscriptions cs) = n" by simp
  with assms(2-5) have "combined_notify result_mapper n cs (Send i x) = (?cs', [OnThrow ex])"
    by (simp add: combined_notify_def zip_send_def zip_next_def dispose_def map_replicate_const)
  moreover have "combined_run result_mapper n ?cs' evs' = (?cs', [])"
    by (rule combined_run_disposed) simp
  ultimately have "combined_run result_mapper n cs (Send i x # evs') = (?cs', [OnThrow ex])"
    by simp
  with assms(1) show ?thesis
    by (simp add: combined_subscribe_def combined_run_append)
qed

theorem zip_combiner_failure_terminates_witness:
  "combined_run (\<lambda>xs. Inl (sum_list xs) :: int + int) 2 (combined_init 2) [Send 0 1]
     = (\<lparr>zip_st = \<lparr>queues = [[1], []], is_done = [False, False]\<rparr>,
         subscriptions = [True, True]\<rparr>, []) \<and>
   combined_subscribe (\<lambda>xs. Inl (sum_list xs) :: int + int) 2
       ([Send 0 1] @ Send 1 5 # [Send 0 2, Send 1 7, Close 0]) = [] @ [OnThrow 6]"
proof -
  let ?rm = "\<lambda>xs. Inl (sum_list xs) :: int + int"
  let ?cs = "\<lparr>zip_st = \<lparr>queues = [[1 :: int], []], is_done = [False, False]\<rparr>,
              subscriptions = [True, True]\<rparr>"
  have a: "combined_run ?rm 2 (combined_init 2) [Send 0 1] = (?cs, [])" by code_simp
  have b: "(1 :: nat) < 2" "subscriptions ?cs ! 1" by simp_all
  have c: "list_all (\<lambda>q. q \<noteq> []) ((queues (zip_st ?cs))[1 := queues (zip_st ?cs) ! 1 @ [5]])"
    by simp
  have d: "?rm (map hd ((queues (zip_st ?cs))[1 := queues (zip_st ?cs) ! 1 @ [5]])) = Inl 6"
    by simp
  from zip_combiner_failure_terminates [where result_mapper = ?rm and evs' = "[Send 0 2, Send 1 7, Close 0]",
           OF a b c d] a
  show ?thesis by simp
qed

text \<open>
  C6. Once a completion or a failure \<open>x\<close> has gone downstream, it is the last
  notification the subscriber receives: nothing follows it, and notifications \<open>evs'\<close>
  that arrive afterwards leave what the subscriber has received as it is. In particular
  no value comes after a failure or a completion.
\<close>

theorem zip_termination_idempotent:
  assumes "combined_subscribe rm n evs = ns @ x # ns'" and "is_terminal x"
  shows "ns' = [] \<and> combined_subscribe rm n (evs @ evs') = combined_subscribe rm n evs"
proof -
  let ?r = "combined_run rm n (combined_init n) evs"
  from assms have tr: "snd ?r = ns @ x # ns'" by (simp add: combined_subscribe_def)
  with assms(2) have "list_ex is_terminal (snd ?r)" by (simp add: list_ex_iff)
  moreover have "subscriptions (combined_init n) = replicate n True"
    by (simp add: combined_init_def)
  ultimately obtain ms y where r: "snd ?r = ms @ [y]" "\<not> list_ex is_terminal ms"
    "subscriptions (fst ?r) = replicate n False"
    using combined_run_live[of "combined_init n" n rm evs] by blast
  from r(1) tr have "ms @ [y] = ns @ x # ns'" by simp
  from terminal_last[OF this assms(2) r(2)] have "ns' = []" .
  moreover from r(3) have "combined_run rm n (fst ?r) evs' = (fst ?r, [])"
    by (rule combined_run_disposed)
  then have "combined_subscribe rm n (evs @ evs') = combined_subscribe rm n evs"
    by (simp add: combined_subscribe_def combined_run_append case_prod_beta)
  ultimately show ?thesis by simp
qed

theorem zip_termination_idempotent_witness:
  "combined_subscribe (\<lambda>xs. Inr (sum_list xs)) 2 [Send 0 1, Throw 0 (), Send 1 (5 :: int)]
     = [] @ OnThrow () # [] \<and>
   combined_subscribe (\<lambda>xs. Inr (sum_list xs)) 2
       ([Send 0 1, Throw 0 (), Send 1 (5 :: int)] @ [Send 1 6, Close 1])
     = combined_subscribe (\<lambda>xs. Inr (sum_list xs)) 2 [Send 0 1, Throw 0 (), Send 1 (5 :: int)]"
proof -
  let ?rm = "\<lambda>xs. Inr (sum_list xs) :: unit + int"
  let ?evs = "[Send 0 1, Throw 0 (), Send 1 (5 :: int)]"
  have a: "combined_subscribe ?rm 2 ?evs = [] @ OnThrow () # []" by code_simp
  have b: "is_terminal (OnThrow () :: (int, unit) notification)" by simp
  from zip_termination_idempotent [OF a b, of "[Send 1 6, Close 1]"] a show ?thesis by simp
qed

subsection \<open>The default mapper\<close>

text \<open>
  C4 does not hold of the code. Without a \<open>result_mapper\<close>, two sources that send \<open>1\<close>
  and \<open>2\<close> make the N-ary path call \<open>list(1, 2)\<close>, which raises \<open>TypeError\<close>: the
  observer gets a failure where the claim has the value \<open>[1, 2]\<close>. On the list path
  the missing mapper is not replaced at all: one source that sends \<open>1\<close> and the sequence
  \<open>[10]\<close> make \<open>send\<close> call \<open>None(1, 10)\<close>, and the observer gets a failure as well.
\<close>

theorem zip_default_mapper_raises:
  "zip_rx [Source, Source] None [Send 0 (PyInt 1), Send 1 (PyInt 2)] = [OnThrow TypeError] \<and>
   zip_rx [Source, Sequence [PyInt 10]] None [Send 0 (PyInt 1)] = [OnThrow TypeError]"
  by code_simp

end
